theory Spec2Isabelle
  imports Main "HOL-Library.Word"
begin

unbundle bit_operations_syntax

section \<open>Memory and little-endian loads\<close>

text \<open>
  The routine of \<^verbatim>\<open>src/bindings/digest.c\<close> receives a raw pointer and a byte count and
  reads the memory behind the pointer through three differently typed pointers
  (\<^verbatim>\<open>uint64_t\<close>, \<^verbatim>\<open>uint16_t\<close>, \<^verbatim>\<open>uint8_t\<close>). Memory is a partial map from
  addresses to bytes: an address outside its domain is not readable, and a load that
  touches such an address has no value. The host is little-endian, as the routine's
  name says: the byte at the lowest address is the least significant one.
\<close>

type_synonym byte = "8 word"
type_synonym u16 = "16 word"
type_synonym u64 = "64 word"
type_synonym heap = "nat \<Rightarrow> byte option"

text \<open>The value of a byte sequence read as one little-endian unsigned integer.\<close>

fun le_nat :: "byte list \<Rightarrow> nat" where
  "le_nat [] = 0"
| "le_nat (x # xs) = unat x + 256 * le_nat xs"

text \<open>The \<open>n\<close> bytes at addresses \<open>a, a + 1, ..\<close>, when all of them are readable.\<close>

fun load_bytes :: "heap \<Rightarrow> nat \<Rightarrow> nat \<Rightarrow> byte list option" where
  "load_bytes m a 0 = Some []"
| "load_bytes m a (Suc n) =
     (case m a of
        None \<Rightarrow> None
      | Some x \<Rightarrow> (case load_bytes m (Suc a) n of None \<Rightarrow> None | Some xs \<Rightarrow> Some (x # xs)))"

text \<open>\<^verbatim>\<open>*u64\<close>, \<^verbatim>\<open>*u16\<close> and \<^verbatim>\<open>*((const uint8_t *)u16)\<close>.\<close>

definition load64 :: "heap \<Rightarrow> nat \<Rightarrow> u64 option" where
  "load64 m a = map_option (\<lambda>bs. word_of_nat (le_nat bs)) (load_bytes m a 8)"

definition load16 :: "heap \<Rightarrow> nat \<Rightarrow> u16 option" where
  "load16 m a = map_option (\<lambda>bs. word_of_nat (le_nat bs)) (load_bytes m a 2)"

definition load8 :: "heap \<Rightarrow> nat \<Rightarrow> byte option" where
  "load8 m a = m a"

text \<open>The heap holds the bytes \<open>b\<close> from address \<open>p\<close> on.\<close>

fun buffer_at :: "heap \<Rightarrow> nat \<Rightarrow> byte list \<Rightarrow> bool" where
  "buffer_at m p [] = True"
| "buffer_at m p (x # xs) = (m p = Some x \<and> buffer_at m (Suc p) xs)"

text \<open>A heap in which every address holds \<^verbatim>\<open>0xFF\<close>.\<close>

definition ones_heap :: heap where
  "ones_heap = (\<lambda>a. Some 255)"

text \<open>A heap that holds the bytes \<open>b\<close> from address \<open>p\<close> on and nothing else.\<close>

definition only_buffer :: "nat \<Rightarrow> byte list \<Rightarrow> heap" where
  "only_buffer p b = (\<lambda>a. if p \<le> a \<and> a < p + length b then Some (b ! (a - p)) else None)"

section \<open>The routine \<^verbatim>\<open>digest_32_le\<close>\<close>

text \<open>
  The byte count \<^verbatim>\<open>len\<close> is declared with the host runtime's \<^verbatim>\<open>value\<close> type, whose
  declaration is not part of the repository. Modelled from the spec: \<^verbatim>\<open>len\<close> is a
  non-negative byte length that fits a machine word, a natural number here; the loops
  only ever compare it and subtract from it. Addresses are natural numbers as well.

  Lines 14 to 20, the loop over 8-byte chunks. The state is the cursor \<^verbatim>\<open>u64\<close>, the
  remaining length and the two lane accumulators; the accumulators are 64-bit words, so
  \<open>+\<close> wraps around as \<^verbatim>\<open>uint64_t\<close> addition does.
\<close>

fun chunk_loop :: "heap \<Rightarrow> nat \<Rightarrow> nat \<Rightarrow> u64 \<Rightarrow> u64 \<Rightarrow> (nat \<times> nat \<times> u64 \<times> u64) option" where
  "chunk_loop m u64 len s s1 =
     (if 8 \<le> len then
        (case load64 m u64 of
           None \<Rightarrow> None
         | Some d \<Rightarrow>
             chunk_loop m (u64 + 8) (len - 8) (s + (d AND 0xffffffff)) (s1 + drop_bit 32 d))
      else Some (u64, len, s, s1))"

text \<open>Lines 25 to 29, the loop over the remaining 16-bit words.\<close>

fun word_loop :: "heap \<Rightarrow> nat \<Rightarrow> nat \<Rightarrow> u64 \<Rightarrow> (nat \<times> nat \<times> u64) option" where
  "word_loop m u16 len s =
     (if 2 \<le> len then
        (case load16 m u16 of
           None \<Rightarrow> None
         | Some w \<Rightarrow> word_loop m (u16 + 2) (len - 2) (s + ucast w))
      else Some (u16, len, s))"

text \<open>Lines 32 and 33, the last byte.\<close>

definition last_byte :: "heap \<Rightarrow> nat \<Rightarrow> nat \<Rightarrow> u64 \<Rightarrow> u64 option" where
  "last_byte m u16 len s =
     (if len = 1 then (case load8 m u16 of None \<Rightarrow> None | Some x \<Rightarrow> Some (s + ucast x))
      else Some s)"

text \<open>Lines 10 to 33: the value of \<^verbatim>\<open>sum\<close> before the fold.\<close>

definition accumulate :: "heap \<Rightarrow> nat \<Rightarrow> nat \<Rightarrow> u64 option" where
  "accumulate m data len =
     (case chunk_loop m data len 0 0 of
        None \<Rightarrow> None
      | Some (u64, len1, s, s1) \<Rightarrow>
          (case word_loop m u64 len1 (s + s1) of
             None \<Rightarrow> None
           | Some (u16, len2, s2) \<Rightarrow> last_byte m u16 len2 s2))"

text \<open>Lines 36 to 38, the end-around-carry fold: one iteration, and the loop.\<close>

definition fold_step :: "u64 \<Rightarrow> u64" where
  "fold_step s = (s AND 0xffff) + drop_bit 16 s"

function fold_loop :: "u64 \<Rightarrow> u64" where
  "fold_loop s = (if drop_bit 16 s \<noteq> 0 then fold_loop (fold_step s) else s)"
  by pat_completeness auto
termination
proof (relation "measure unat")
  show "wf (measure (unat :: u64 \<Rightarrow> nat))" by simp
next
  fix s :: u64
  assume nz: "drop_bit 16 s \<noteq> 0"
  have lo: "unat (s AND 0xffff) = unat s mod 65536"
  proof -
    have "unat (s AND mask 16) = unat (take_bit 16 s)" by (simp only: take_bit_eq_mask)
    also have "\<dots> = take_bit 16 (unat s)" by (rule unsigned_take_bit_eq)
    also have "\<dots> = unat s mod 2 ^ 16" by (rule take_bit_eq_mod)
    finally show ?thesis by (simp add: mask_eq_exp_minus_1)
  qed
  have hi: "unat (drop_bit 16 s) = unat s div 65536"
  proof -
    have "unat (drop_bit 16 s) = drop_bit 16 (unat s)" by (rule unat_drop_bit_eq)
    also have "\<dots> = unat s div 2 ^ 16" by (rule drop_bit_eq_div)
    finally show ?thesis by simp
  qed
  have "unat (drop_bit 16 s) \<noteq> 0" using nz by (simp add: unat_eq_0)
  then have q: "0 < unat s div 65536" using hi by simp
  have "unat (fold_step s) = (unat s mod 65536 + unat s div 65536) mod 2 ^ 64"
    unfolding fold_step_def by (simp add: unat_word_ariths lo hi)
  also have "\<dots> \<le> unat s mod 65536 + unat s div 65536" by (rule mod_less_eq_dividend)
  also have "\<dots> < unat s"
  proof -
    have a: "unat s div 65536 < 65536 * (unat s div 65536)" using q by simp
    have b: "unat s = 65536 * (unat s div 65536) + unat s mod 65536" by simp
    show ?thesis using a b by linarith
  qed
  finally show "(fold_step s, s) \<in> measure unat" by simp
qed

text \<open>Line 39: the complement, narrowed to 16 bits.\<close>

definition digest_32_le :: "heap \<Rightarrow> nat \<Rightarrow> nat \<Rightarrow> u16 option" where
  "digest_32_le m data len = map_option (\<lambda>s. ucast (NOT (fold_loop s))) (accumulate m data len)"

section \<open>The checksum as the specification words it\<close>

text \<open>
  The 16-bit little-endian words of a buffer; a final single byte is a word whose high
  byte is zero.
\<close>

fun words16 :: "byte list \<Rightarrow> nat list" where
  "words16 [] = []"
| "words16 [x] = [unat x]"
| "words16 (x # y # r) = (unat x + 256 * unat y) # words16 r"

text \<open>
  One's-complement addition of two 16-bit values: addition modulo \<open>2 ^ 16\<close> in which the
  carry out of bit 15 is added back into bit 0.
\<close>

definition oc_add :: "nat \<Rightarrow> nat \<Rightarrow> nat" where
  "oc_add a b = (a + b) mod 65536 + (a + b) div 65536"

definition ones_complement_sum :: "byte list \<Rightarrow> nat" where
  "ones_complement_sum b = foldl oc_add 0 (words16 b)"

text \<open>
  The end-around-carry fold on unbounded integers: replace \<open>x\<close> by
  \<open>(x & 0xFFFF) + (x >> 16)\<close> until \<open>x < 2 ^ 16\<close>.
\<close>

function fold_carry :: "nat \<Rightarrow> nat" where
  "fold_carry x = (if 65536 \<le> x then fold_carry (x mod 65536 + x div 65536) else x)"
  by pat_completeness auto
termination
proof (relation "measure id")
  show "wf (measure (id :: nat \<Rightarrow> nat))" by simp
next
  fix x :: nat
  assume big: "65536 \<le> x"
  then have a: "x div 65536 < 65536 * (x div 65536)" by (simp add: div_greater_zero_iff)
  have b: "x = 65536 * (x div 65536) + x mod 65536" by simp
  have "x mod 65536 + x div 65536 < x" using a b by linarith
  then show "(x mod 65536 + x div 65536, x) \<in> measure id" by simp
qed

text \<open>
  The byte-wise reference implementation: it walks the buffer two bytes at a time, adds
  each little-endian 16-bit word to an unbounded accumulator, folds and complements.
\<close>

fun reference_sum :: "byte list \<Rightarrow> nat \<Rightarrow> nat" where
  "reference_sum (x # y # r) acc = reference_sum r (acc + (unat x + 256 * unat y))"
| "reference_sum [x] acc = acc + unat x"
| "reference_sum [] acc = acc"

definition reference_digest :: "byte list \<Rightarrow> u16" where
  "reference_digest b = NOT (word_of_nat (fold_carry (reference_sum b 0)))"

section \<open>Splitting a buffer\<close>

text \<open>
  The pre-fold sums of the first \<open>k\<close> bytes and of the remaining \<open>len - k\<close> bytes,
  computed by the routine's own accumulation, added, folded and complemented.
\<close>

definition digest_split :: "heap \<Rightarrow> nat \<Rightarrow> nat \<Rightarrow> nat \<Rightarrow> u16 option" where
  "digest_split m data k len =
     (case accumulate m data k of
        None \<Rightarrow> None
      | Some a \<Rightarrow>
          (case accumulate m (data + k) (len - k) of
             None \<Rightarrow> None
           | Some b \<Rightarrow> Some (ucast (NOT (fold_loop (a + b))))))"

section \<open>The accumulation with every addition checked\<close>

text \<open>
  The same three loops, but an addition whose exact result does not fit 64 bits is
  reported instead of wrapping around. The routine itself never does this; the checked
  run says whether a given input makes any of its additions overflow.
\<close>

datatype fault = Unreadable | Overflow

definition add_checked :: "u64 \<Rightarrow> u64 \<Rightarrow> fault + u64" where
  "add_checked a b = (if unat a + unat b < 2 ^ 64 then Inr (a + b) else Inl Overflow)"

fun chunk_loop_checked ::
  "heap \<Rightarrow> nat \<Rightarrow> nat \<Rightarrow> u64 \<Rightarrow> u64 \<Rightarrow> fault + (nat \<times> nat \<times> u64 \<times> u64)" where
  "chunk_loop_checked m u64 len s s1 =
     (if 8 \<le> len then
        (case load64 m u64 of
           None \<Rightarrow> Inl Unreadable
         | Some d \<Rightarrow>
             (case add_checked s (d AND 0xffffffff) of
                Inl e \<Rightarrow> Inl e
              | Inr s' \<Rightarrow>
                  (case add_checked s1 (drop_bit 32 d) of
                     Inl e \<Rightarrow> Inl e
                   | Inr s1' \<Rightarrow> chunk_loop_checked m (u64 + 8) (len - 8) s' s1')))
      else Inr (u64, len, s, s1))"

fun word_loop_checked :: "heap \<Rightarrow> nat \<Rightarrow> nat \<Rightarrow> u64 \<Rightarrow> fault + (nat \<times> nat \<times> u64)" where
  "word_loop_checked m u16 len s =
     (if 2 \<le> len then
        (case load16 m u16 of
           None \<Rightarrow> Inl Unreadable
         | Some w \<Rightarrow>
             (case add_checked s (ucast w) of
                Inl e \<Rightarrow> Inl e
              | Inr s' \<Rightarrow> word_loop_checked m (u16 + 2) (len - 2) s'))
      else Inr (u16, len, s))"

definition last_byte_checked :: "heap \<Rightarrow> nat \<Rightarrow> nat \<Rightarrow> u64 \<Rightarrow> fault + u64" where
  "last_byte_checked m u16 len s =
     (if len = 1 then
        (case load8 m u16 of None \<Rightarrow> Inl Unreadable | Some x \<Rightarrow> add_checked s (ucast x))
      else Inr s)"

definition accumulate_checked :: "heap \<Rightarrow> nat \<Rightarrow> nat \<Rightarrow> fault + u64" where
  "accumulate_checked m data len =
     (case chunk_loop_checked m data len 0 0 of
        Inl e \<Rightarrow> Inl e
      | Inr (u64, len1, s, s1) \<Rightarrow>
          (case add_checked s s1 of
             Inl e \<Rightarrow> Inl e
           | Inr s2 \<Rightarrow>
               (case word_loop_checked m u64 len1 s2 of
                  Inl e \<Rightarrow> Inl e
                | Inr (u16, len2, s3) \<Rightarrow> last_byte_checked m u16 len2 s3)))"

section \<open>Exact sums\<close>

text \<open>
  What the two lanes and the whole accumulation add up to as unbounded integers: the
  64-bit accumulators hold these values modulo \<open>2 ^ 64\<close>.
\<close>

fun lane_lo :: "byte list \<Rightarrow> nat" where
  "lane_lo b = (if 8 \<le> length b then le_nat (take 8 b) mod 4294967296 + lane_lo (drop 8 b) else 0)"

fun lane_hi :: "byte list \<Rightarrow> nat" where
  "lane_hi b = (if 8 \<le> length b then le_nat (take 8 b) div 4294967296 + lane_hi (drop 8 b) else 0)"

definition exact_sum :: "byte list \<Rightarrow> nat" where
  "exact_sum b = lane_lo b + lane_hi b + sum_list (words16 (drop (8 * (length b div 8)) b))"

text \<open>The equations of the loops are unfolded one iteration at a time, where a proof asks for it.\<close>

declare chunk_loop.simps [simp del] word_loop.simps [simp del] fold_loop.simps [simp del]
  fold_carry.simps [simp del] lane_lo.simps [simp del] lane_hi.simps [simp del]
  chunk_loop_checked.simps [simp del] word_loop_checked.simps [simp del]

section \<open>Bytes in memory\<close>

lemma ucast_not: "(ucast (NOT (s :: u64)) :: u16) = NOT (ucast s)"
  by (rule bit_word_eqI) (auto simp: bit_simps)

lemma le_nat_less: "le_nat xs < 256 ^ length xs"
proof (induction xs)
  case Nil
  show ?case by simp
next
  case (Cons x xs)
  have "unat x < 256" using unsigned_less [of x] by simp
  then have "unat x + 256 * le_nat xs < 256 * (1 + le_nat xs)" by simp
  also have "\<dots> \<le> 256 * 256 ^ length xs" using Cons.IH by (simp only: mult_le_cancel1) simp
  finally show ?case by simp
qed

lemma buffer_at_load_bytes:
  "buffer_at m p b \<Longrightarrow> n \<le> length b \<Longrightarrow> load_bytes m p n = Some (take n b)"
proof (induction n arbitrary: p b)
  case 0
  show ?case by simp
next
  case (Suc n)
  then obtain x xs where b: "b = x # xs" by (cases b) auto
  with Suc.prems have "m p = Some x" "buffer_at m (Suc p) xs" "n \<le> length xs" by auto
  then show ?case using Suc.IH [of "Suc p" xs] b by simp
qed

lemma buffer_at_drop: "buffer_at m p b \<Longrightarrow> buffer_at m (p + n) (drop n b)"
proof (induction n arbitrary: p b)
  case 0
  then show ?case by simp
next
  case (Suc n)
  show ?case
  proof (cases b)
    case Nil
    then show ?thesis by simp
  next
    case (Cons x xs)
    with Suc.prems have "buffer_at m (Suc p) xs" by simp
    then have "buffer_at m (Suc p + n) (drop n xs)" by (rule Suc.IH)
    then show ?thesis using Cons by simp
  qed
qed

lemma buffer_at_take: "buffer_at m p b \<Longrightarrow> buffer_at m p (take n b)"
proof (induction n arbitrary: p b)
  case 0
  then show ?case by simp
next
  case (Suc n)
  then show ?case by (cases b) auto
qed

lemma buffer_at_only_buffer_aux:
  "\<forall>i<length b. m (p + i) = Some (b ! i) \<Longrightarrow> buffer_at m p b"
proof (induction b arbitrary: p)
  case Nil
  show ?case by simp
next
  case (Cons x xs)
  have "m p = Some x" using Cons.prems [rule_format, of 0] by simp
  moreover have "\<forall>i<length xs. m (Suc p + i) = Some (xs ! i)"
  proof (intro allI impI)
    fix i assume "i < length xs"
    then show "m (Suc p + i) = Some (xs ! i)" using Cons.prems [rule_format, of "Suc i"] by simp
  qed
  ultimately show ?case using Cons.IH [of "Suc p"] by simp
qed

lemma buffer_at_only_buffer: "buffer_at (only_buffer p b) p b"
  by (rule buffer_at_only_buffer_aux) (simp add: only_buffer_def)

lemma buffer_at_ones: "buffer_at ones_heap p (replicate n 255)"
  by (induction n arbitrary: p) (simp_all add: ones_heap_def)

lemma unat_and_mask: "unat ((s::'a::len word) AND mask n) = unat s mod 2 ^ n"
proof -
  have "unat (s AND mask n) = unat (take_bit n s)" by (simp only: take_bit_eq_mask)
  also have "\<dots> = take_bit n (unat s)" by (rule unsigned_take_bit_eq)
  also have "\<dots> = unat s mod 2 ^ n" by (rule take_bit_eq_mod)
  finally show ?thesis .
qed

lemma unat_low16: "unat ((s::u64) AND 0xffff) = unat s mod 65536"
  using unat_and_mask [of s 16] by (simp add: mask_eq_exp_minus_1)

lemma unat_low32: "unat ((s::u64) AND 0xffffffff) = unat s mod 4294967296"
  using unat_and_mask [of s 32] by (simp add: mask_eq_exp_minus_1)

lemma unat_high16: "unat (drop_bit 16 (s::u64)) = unat s div 65536"
proof -
  have "unat (drop_bit 16 s) = drop_bit 16 (unat s)" by (rule unat_drop_bit_eq)
  also have "\<dots> = unat s div 2 ^ 16" by (rule drop_bit_eq_div)
  finally show ?thesis by simp
qed

lemma unat_high32: "unat (drop_bit 32 (s::u64)) = unat s div 4294967296"
proof -
  have "unat (drop_bit 32 s) = drop_bit 32 (unat s)" by (rule unat_drop_bit_eq)
  also have "\<dots> = unat s div 2 ^ 32" by (rule drop_bit_eq_div)
  finally show ?thesis by simp
qed

lemma unat_of_nat64: "n < 18446744073709551616 \<Longrightarrow> unat (word_of_nat n :: u64) = n"
  by (simp add: unat_of_nat)

lemma low32_of_nat:
  assumes "n < 18446744073709551616"
  shows "(word_of_nat n :: u64) AND 0xffffffff = word_of_nat (n mod 4294967296)"
proof (rule word_unat_eq_iff [THEN iffD2])
  have "n mod 4294967296 < 18446744073709551616" using assms by (simp add: less_imp_diff_less mod_less_eq_dividend le_less_trans)
  then show "unat ((word_of_nat n :: u64) AND 0xffffffff) = unat (word_of_nat (n mod 4294967296) :: u64)"
    using assms by (simp add: unat_low32 unat_of_nat64)
qed

lemma high32_of_nat:
  assumes "n < 18446744073709551616"
  shows "drop_bit 32 (word_of_nat n :: u64) = word_of_nat (n div 4294967296)"
proof (rule word_unat_eq_iff [THEN iffD2])
  have "n div 4294967296 < 18446744073709551616" using assms by (simp add: div_le_dividend le_less_trans)
  then show "unat (drop_bit 32 (word_of_nat n :: u64)) = unat (word_of_nat (n div 4294967296) :: u64)"
    using assms by (simp add: unat_high32 unat_of_nat64)
qed

lemma le_nat_8_less: "length xs = 8 \<Longrightarrow> le_nat xs < 18446744073709551616"
  using le_nat_less [of xs] by simp

lemma load64_buffer:
  "buffer_at m p b \<Longrightarrow> 8 \<le> length b \<Longrightarrow> load64 m p = Some (word_of_nat (le_nat (take 8 b)))"
  by (simp add: load64_def buffer_at_load_bytes)

lemma chunk_loop_buffer:
  "buffer_at m p b \<Longrightarrow>
   chunk_loop m p (length b) s s1 =
     Some (p + 8 * (length b div 8), length b mod 8,
           s + word_of_nat (lane_lo b), s1 + word_of_nat (lane_hi b))"
proof (induction b arbitrary: p s s1 rule: lane_lo.induct)
  case (1 b)
  show ?case
  proof (cases "8 \<le> length b")
    case False
    then show ?thesis by (simp add: chunk_loop.simps lane_lo.simps lane_hi.simps)
  next
    case True
    let ?x = "le_nat (take 8 b)"
    have x: "?x < 18446744073709551616" using True by (intro le_nat_8_less) simp
    have ld: "load64 m p = Some (word_of_nat ?x)" using "1.prems" True by (rule load64_buffer)
    have rest: "buffer_at m (p + 8) (drop 8 b)" using "1.prems" by (rule buffer_at_drop)
    have len: "length b - 8 = length (drop 8 b)" by simp
    have dm: "length b div 8 = Suc (length (drop 8 b) div 8)" "length b mod 8 = length (drop 8 b) mod 8"
      using True by (simp_all add: le_div_geq le_mod_geq)
    have "chunk_loop m p (length b) s s1 =
          chunk_loop m (p + 8) (length (drop 8 b)) (s + word_of_nat (?x mod 4294967296))
            (s1 + word_of_nat (?x div 4294967296))"
      using True ld by (subst chunk_loop.simps) (simp add: low32_of_nat [OF x] high32_of_nat [OF x])
    also have "\<dots> = Some (p + 8 + 8 * (length (drop 8 b) div 8), length (drop 8 b) mod 8,
           s + word_of_nat (?x mod 4294967296) + word_of_nat (lane_lo (drop 8 b)),
           s1 + word_of_nat (?x div 4294967296) + word_of_nat (lane_hi (drop 8 b)))"
      using "1.IH" [OF True rest] .
    also have "\<dots> = Some (p + 8 * (length b div 8), length b mod 8,
           s + word_of_nat (lane_lo b), s1 + word_of_nat (lane_hi b))"
      using True dm by (simp add: lane_lo.simps [of b] lane_hi.simps [of b] add.assoc)
    finally show ?thesis .
  qed
qed

section \<open>What the accumulation computes\<close>

lemma ucast8_of_nat: "(ucast (x :: byte) :: u64) = word_of_nat (unat x)"
  by simp

lemma ucast16_of_nat: "n < 65536 \<Longrightarrow> (ucast (word_of_nat n :: u16) :: u64) = word_of_nat n"
proof (rule word_unat_eq_iff [THEN iffD2])
  assume n: "n < 65536"
  have a: "unat (word_of_nat n :: u16) = n" using n by (simp add: unat_of_nat)
  have "take_bit 64 n = n" using n by (intro take_bit_nat_eq_self) simp
  then have "unat (ucast (word_of_nat n :: u16) :: u64) = n"
    by (simp only: unsigned_ucast_eq a) simp
  moreover have "unat (word_of_nat n :: u64) = n" using n by (simp add: unat_of_nat)
  ultimately show "unat (ucast (word_of_nat n :: u16) :: u64) = unat (word_of_nat n :: u64)" by simp
qed

lemma word16_less: "unat (x :: byte) + 256 * unat (y :: byte) < 65536"
proof -
  have "unat x < 256" "unat y < 256" using unsigned_less [of x] unsigned_less [of y] by simp_all
  then show ?thesis by simp
qed

lemma load16_buffer:
  "buffer_at m p (x # y # r) \<Longrightarrow> load16 m p = Some (word_of_nat (unat x + 256 * unat y))"
  by (simp add: load16_def numeral_2_eq_2)

lemma tail_buffer:
  "buffer_at m p b \<Longrightarrow>
   (case word_loop m p (length b) s of
      None \<Rightarrow> None
    | Some (u16, len2, s2) \<Rightarrow> last_byte m u16 len2 s2) = Some (s + word_of_nat (sum_list (words16 b)))"
proof (induction b arbitrary: p s rule: words16.induct)
  case 1
  show ?case by (simp add: word_loop.simps last_byte_def)
next
  case (2 x)
  then show ?case by (simp add: word_loop.simps last_byte_def load8_def)
next
  case (3 x y r)
  have ld: "load16 m p = Some (word_of_nat (unat x + 256 * unat y))"
    using "3.prems" by (rule load16_buffer)
  have rest: "buffer_at m (p + 2) r" using "3.prems" by simp
  have "word_loop m p (length (x # y # r)) s =
        word_loop m (p + 2) (length r) (s + ucast (word_of_nat (unat x + 256 * unat y) :: u16))"
    by (subst word_loop.simps) (simp only: ld, simp)
  also have "\<dots> = word_loop m (p + 2) (length r) (s + word_of_nat (unat x + 256 * unat y))"
    by (simp only: ucast16_of_nat [OF word16_less])
  finally show ?case using "3.IH" [OF rest, of "s + word_of_nat (unat x + 256 * unat y)"]
    by (simp add: add.assoc)
qed

lemma accumulate_buffer:
  assumes "buffer_at m p b"
  shows "accumulate m p (length b) = Some (word_of_nat (exact_sum b))"
proof -
  let ?k = "8 * (length b div 8)"
  have rest: "buffer_at m (p + ?k) (drop ?k b)" using assms by (rule buffer_at_drop)
  have len: "length (drop ?k b) = length b mod 8" by (simp add: minus_mult_div_eq_mod)
  have "(case word_loop m (p + ?k) (length b mod 8) (word_of_nat (lane_lo b) + word_of_nat (lane_hi b)) of
           None \<Rightarrow> None
         | Some (u16, len2, s2) \<Rightarrow> last_byte m u16 len2 s2) =
        Some (word_of_nat (lane_lo b) + word_of_nat (lane_hi b) + word_of_nat (sum_list (words16 (drop ?k b))))"
    using tail_buffer [OF rest, of "word_of_nat (lane_lo b) + word_of_nat (lane_hi b)"]
    by (simp only: len)
  then show ?thesis
    by (simp add: accumulate_def chunk_loop_buffer [OF assms] exact_sum_def)
qed

lemma digest_buffer:
  "buffer_at m p b \<Longrightarrow>
   digest_32_le m p (length b) = Some (ucast (NOT (fold_loop (word_of_nat (exact_sum b)))))"
  by (simp add: digest_32_le_def accumulate_buffer)

section \<open>The fold\<close>

lemma fold_carry_small: "x < 65536 \<Longrightarrow> fold_carry x = x"
  by (simp add: fold_carry.simps)

lemma fold_carry_closed: "fold_carry x = (if x = 0 then 0 else 1 + (x - 1) mod 65535)"
proof (induction x rule: fold_carry.induct)
  case (1 x)
  show ?case
  proof (cases "65536 \<le> x")
    case False
    then show ?thesis by (simp add: fold_carry_small)
  next
    case True
    let ?q = "x div 65536" and ?r = "x mod 65536"
    have q: "0 < ?q" using True by (simp add: div_greater_zero_iff)
    have x: "x = 65536 * ?q + ?r" by simp
    have "x - 1 = 65535 * ?q + (?r + ?q - 1)" using x q by linarith
    then have "(x - 1) mod 65535 = (?r + ?q - 1) mod 65535" by (simp only: mod_mult_self4)
    moreover have "fold_carry x = fold_carry (?r + ?q)" using True by (subst fold_carry.simps) simp
    moreover have "fold_carry (?r + ?q) = 1 + (?r + ?q - 1) mod 65535"
      using "1.IH" [OF True] q by simp
    ultimately show ?thesis using True by simp
  qed
qed

lemma succ_mod_cancel:
  assumes "(a + 1) mod 65535 = (b + 1) mod (65535 :: nat)"
  shows "a mod 65535 = b mod 65535"
proof -
  have shift: "z mod 65535 = ((z + 1) mod 65535 + 65534) mod 65535" for z :: nat
    by (simp add: mod_add_left_eq)
  show ?thesis using shift [of a] shift [of b] assms by simp
qed

lemma fold_carry_cong:
  assumes "x mod 65535 = y mod 65535" and "(x = 0) = (y = 0)"
  shows "fold_carry x = fold_carry y"
proof (cases "x = 0")
  case True
  then show ?thesis using assms by simp
next
  case False
  then have y: "y \<noteq> 0" using assms by simp
  have "(x - 1 + 1) mod 65535 = (y - 1 + 1) mod 65535" using assms False y by simp
  then have "(x - 1) mod 65535 = (y - 1) mod 65535"
    using succ_mod_cancel by blast
  then show ?thesis using False y by (simp add: fold_carry_closed)
qed

lemma unat_fold_step: "unat (fold_step s) = unat s mod 65536 + unat s div 65536"
proof -
  have "unat s < 2 ^ 64" using unsigned_less [of s] by simp
  then have "unat s div 65536 < 281474976710656" by simp
  moreover have "unat s mod 65536 < 65536" by simp
  ultimately have "unat s mod 65536 + unat s div 65536 < 2 ^ 64" by simp
  then show ?thesis
    unfolding fold_step_def by (simp add: unat_word_ariths unat_low16 unat_high16)
qed

lemma unat_fold_loop: "unat (fold_loop s) = fold_carry (unat s)"
proof (induction s rule: fold_loop.induct)
  case (1 s)
  have iff: "(drop_bit 16 s \<noteq> 0) = (65536 \<le> unat s)"
  proof -
    have "(drop_bit 16 s = 0) = (unat (drop_bit 16 s) = 0)" by (simp add: unat_eq_0)
    also have "\<dots> = (unat s < 65536)" by (simp add: unat_high16 div_eq_0_iff)
    finally show ?thesis by auto
  qed
  show ?case
  proof (cases "drop_bit 16 s \<noteq> 0")
    case True
    have "unat (fold_loop s) = unat (fold_loop (fold_step s))"
      using True by (subst fold_loop.simps) simp
    also have "\<dots> = fold_carry (unat s mod 65536 + unat s div 65536)"
      using "1.IH" [OF True] by (simp add: unat_fold_step)
    also have "\<dots> = fold_carry (unat s)"
      using True iff by (subst (2) fold_carry.simps) simp
    finally show ?thesis .
  next
    case False
    then have "fold_loop s = s" by (subst fold_loop.simps) simp
    moreover have "unat s < 65536" using False iff by simp
    ultimately show ?thesis by (simp add: fold_carry_small)
  qed
qed

section \<open>Exact sums and sums of 16-bit words\<close>

lemma words16_append:
  "even (length xs) \<Longrightarrow> words16 (xs @ ys) = words16 xs @ words16 ys"
  by (induction xs rule: words16.induct) simp_all

lemma words16_less: "w \<in> set (words16 b) \<Longrightarrow> w < 65536"
proof (induction b rule: words16.induct)
  case 1
  then show ?case by simp
next
  case (2 x)
  have "unat x < 256" using unsigned_less [of x] by simp
  with 2 show ?case by simp
next
  case (3 x y r)
  then show ?case using word16_less [of x y] by auto
qed

lemma sum_words16_le: "sum_list (words16 b) \<le> 65535 * length b"
proof (induction b rule: words16.induct)
  case 1
  show ?case by simp
next
  case (2 x)
  have "unat x < 256" using unsigned_less [of x] by simp
  then show ?case by simp
next
  case (3 x y r)
  then show ?case using word16_less [of x y] by simp
qed

lemma le_nat_mod: "le_nat b mod 65535 = sum_list (words16 b) mod 65535"
proof (induction b rule: words16.induct)
  case 1
  show ?case by simp
next
  case (2 x)
  show ?case by simp
next
  case (3 x y r)
  let ?w = "unat x + 256 * unat y"
  have "le_nat (x # y # r) = 65535 * le_nat r + (?w + le_nat r)" by simp
  then have "le_nat (x # y # r) mod 65535 = (?w + le_nat r) mod 65535"
    by (simp only: mod_mult_self4)
  also have "\<dots> = (?w + le_nat r mod 65535) mod 65535" by (simp only: mod_add_right_eq)
  also have "\<dots> = (?w + sum_list (words16 r) mod 65535) mod 65535" by (simp only: "3.IH")
  also have "\<dots> = (?w + sum_list (words16 r)) mod 65535" by (simp only: mod_add_right_eq)
  finally show ?case by simp
qed

lemma le_nat_zero: "(le_nat b = 0) = (sum_list (words16 b) = 0)"
  by (induction b rule: words16.induct) simp_all

lemma lanes_mod: "(x mod 4294967296 + x div 4294967296) mod 65535 = x mod (65535 :: nat)"
proof -
  let ?q = "x div 4294967296" and ?r = "x mod 4294967296"
  have "x = 4294967296 * ?q + ?r" by simp
  then have "x = 65535 * (65537 * ?q) + (?r + ?q)" by linarith
  then have "x mod 65535 = (65535 * (65537 * ?q) + (?r + ?q)) mod 65535" by simp
  then show ?thesis by (simp only: mod_mult_self4)
qed

lemma lanes_zero: "(x mod 4294967296 + x div 4294967296 = 0) = (x = (0 :: nat))"
proof
  assume "x mod 4294967296 + x div 4294967296 = 0"
  then have "x mod 4294967296 = 0" "x div 4294967296 = 0" by simp_all
  moreover have "x = 4294967296 * (x div 4294967296) + x mod 4294967296" by simp
  ultimately show "x = 0" by simp
next
  assume "x = 0"
  then show "x mod 4294967296 + x div 4294967296 = 0" by simp
qed

lemma exact_sum_rec:
  "exact_sum b =
     (if 8 \<le> length b
      then le_nat (take 8 b) mod 4294967296 + le_nat (take 8 b) div 4294967296 + exact_sum (drop 8 b)
      else sum_list (words16 b))"
proof (cases "8 \<le> length b")
  case False
  then show ?thesis by (simp add: exact_sum_def lane_lo.simps lane_hi.simps)
next
  case True
  then have "length b div 8 = Suc ((length b - 8) div 8)" by (simp add: le_div_geq)
  then have "drop (8 * (length b div 8)) b = drop (8 * ((length b - 8) div 8)) (drop 8 b)"
    by (simp add: add.commute)
  then show ?thesis
    using True by (simp add: exact_sum_def lane_lo.simps [of b] lane_hi.simps [of b])
qed

lemma sum_words16_rec:
  "8 \<le> length b \<Longrightarrow>
   sum_list (words16 b) = sum_list (words16 (take 8 b)) + sum_list (words16 (drop 8 b))"
proof -
  assume "8 \<le> length b"
  then have "even (length (take 8 b))" by simp
  then have "words16 (take 8 b @ drop 8 b) = words16 (take 8 b) @ words16 (drop 8 b)"
    by (rule words16_append)
  then show ?thesis by simp
qed

lemma exact_sum_mod: "exact_sum b mod 65535 = sum_list (words16 b) mod 65535"
proof (induction b rule: lane_lo.induct)
  case (1 b)
  show ?case
  proof (cases "8 \<le> length b")
    case False
    then show ?thesis by (simp add: exact_sum_rec)
  next
    case True
    let ?x = "le_nat (take 8 b)"
    let ?l = "?x mod 4294967296 + ?x div 4294967296"
    have "exact_sum b mod 65535 = (?l + exact_sum (drop 8 b)) mod 65535"
      using True by (subst exact_sum_rec) simp
    also have "\<dots> = (?l mod 65535 + exact_sum (drop 8 b) mod 65535) mod 65535"
      by (simp only: mod_add_eq)
    also have "\<dots> = (sum_list (words16 (take 8 b)) mod 65535
                      + sum_list (words16 (drop 8 b)) mod 65535) mod 65535"
      by (simp only: lanes_mod le_nat_mod "1.IH" [OF True])
    also have "\<dots> = (sum_list (words16 (take 8 b)) + sum_list (words16 (drop 8 b))) mod 65535"
      by (simp only: mod_add_eq)
    finally show ?thesis by (simp only: sum_words16_rec [OF True])
  qed
qed

lemma exact_sum_zero: "(exact_sum b = 0) = (sum_list (words16 b) = 0)"
proof (induction b rule: lane_lo.induct)
  case (1 b)
  show ?case
  proof (cases "8 \<le> length b")
    case False
    then show ?thesis by (simp add: exact_sum_rec)
  next
    case True
    let ?x = "le_nat (take 8 b)"
    have "(exact_sum b = 0) =
          (?x mod 4294967296 + ?x div 4294967296 = 0 \<and> exact_sum (drop 8 b) = 0)"
      using True by (subst exact_sum_rec) simp
    also have "\<dots> = (sum_list (words16 (take 8 b)) = 0 \<and> sum_list (words16 (drop 8 b)) = 0)"
      by (simp only: lanes_zero le_nat_zero "1.IH" [OF True])
    also have "\<dots> = (sum_list (words16 b) = 0)"
      by (simp only: sum_words16_rec [OF True]) simp
    finally show ?thesis .
  qed
qed

lemma fold_exact_sum: "fold_carry (exact_sum b) = fold_carry (sum_list (words16 b))"
  by (rule fold_carry_cong) (rule exact_sum_mod, rule exact_sum_zero)

lemma exact_sum_le: "exact_sum b \<le> (length b div 8) * 8589934590 + 458745"
proof (induction b rule: lane_lo.induct)
  case (1 b)
  show ?case
  proof (cases "8 \<le> length b")
    case False
    then have "length b \<le> 7" by simp
    then have "65535 * length b \<le> 458745" by simp
    then have "sum_list (words16 b) \<le> 458745" using sum_words16_le [of b] by linarith
    then show ?thesis using False by (simp add: exact_sum_rec)
  next
    case True
    let ?x = "le_nat (take 8 b)"
    have x: "?x < 18446744073709551616" using True by (intro le_nat_8_less) simp
    have lo: "?x mod 4294967296 \<le> 4294967295"
      using mod_less_divisor [of 4294967296 ?x] by linarith
    have hi: "?x div 4294967296 \<le> 4294967295" using x by simp
    have dv: "length b div 8 = Suc (length (drop 8 b) div 8)" using True by (simp add: le_div_geq)
    have "exact_sum b = ?x mod 4294967296 + ?x div 4294967296 + exact_sum (drop 8 b)"
      using True by (subst exact_sum_rec) simp
    then show ?thesis using lo hi "1.IH" [OF True] dv by simp
  qed
qed

lemma exact_sum_fits: "length b div 8 \<le> 2147483648 \<Longrightarrow> exact_sum b < 18446744073709551616"
proof -
  assume "length b div 8 \<le> 2147483648"
  then have "(length b div 8) * 8589934590 \<le> 2147483648 * 8589934590" by (rule mult_le_mono1)
  then show ?thesis using exact_sum_le [of b] by simp
qed

section \<open>The checksum as a one's-complement sum\<close>

lemma ucast_of_nat_64_16: "(ucast (word_of_nat n :: u64) :: u16) = word_of_nat n"
  by (rule bit_word_eqI) (auto simp: bit_simps)

lemma fold_carry_less: "fold_carry x < 65536"
proof -
  have "(x - 1) mod 65535 < 65535" by simp
  then show ?thesis by (simp add: fold_carry_closed)
qed

lemma fold_loop_of_nat:
  assumes "n < 18446744073709551616"
  shows "fold_loop (word_of_nat n) = word_of_nat (fold_carry n)"
proof -
  have "unat (fold_loop (word_of_nat n)) = fold_carry n"
    using assms by (simp add: unat_fold_loop unat_of_nat64)
  then have "word_of_nat (unat (fold_loop (word_of_nat n))) = (word_of_nat (fold_carry n) :: u64)"
    by simp
  then show ?thesis by simp
qed

lemma digest_value:
  assumes "buffer_at m p b" and "length b div 8 \<le> 2147483648"
  shows "digest_32_le m p (length b) = Some (NOT (word_of_nat (fold_carry (sum_list (words16 b)))))"
proof -
  have "fold_loop (word_of_nat (exact_sum b)) = word_of_nat (fold_carry (sum_list (words16 b)))"
    using exact_sum_fits [OF assms(2)] by (simp add: fold_loop_of_nat fold_exact_sum)
  then show ?thesis
    by (simp only: digest_buffer [OF assms(1)] ucast_not ucast_of_nat_64_16)
qed

lemma fold_carry_mod: "fold_carry x mod 65535 = x mod 65535"
proof (cases "x = 0")
  case True
  then show ?thesis by (simp add: fold_carry_closed)
next
  case False
  then have "fold_carry x mod 65535 = (1 + (x - 1) mod 65535) mod 65535"
    by (simp add: fold_carry_closed)
  also have "\<dots> = (1 + (x - 1)) mod 65535" by (simp only: mod_add_right_eq)
  finally show ?thesis using False by simp
qed

lemma fold_carry_zero: "(fold_carry x = 0) = (x = 0)"
  by (simp add: fold_carry_closed)

lemma oc_add_fold:
  assumes "w < 65536"
  shows "oc_add (fold_carry a) w = fold_carry (a + w)"
proof -
  let ?s = "fold_carry a + w"
  have s: "?s < 131071" using fold_carry_less [of a] assms by simp
  have one: "oc_add (fold_carry a) w = fold_carry ?s"
  proof (cases "65536 \<le> ?s")
    case False
    then show ?thesis by (simp add: oc_add_def fold_carry_small)
  next
    case True
    have d: "?s div 65536 = 1" using True s by simp
    have "?s = 65536 * (?s div 65536) + ?s mod 65536" by simp
    then have "?s mod 65536 = ?s - 65536" using d by linarith
    then have "?s mod 65536 + ?s div 65536 < 65536" using d s True by linarith
    then have "fold_carry (?s mod 65536 + ?s div 65536) = ?s mod 65536 + ?s div 65536"
      by (rule fold_carry_small)
    then show ?thesis using True by (subst (2) fold_carry.simps) (simp add: oc_add_def)
  qed
  have "?s mod 65535 = (fold_carry a mod 65535 + w) mod 65535" by (simp only: mod_add_left_eq)
  also have "\<dots> = (a + w) mod 65535" by (simp only: fold_carry_mod mod_add_left_eq)
  finally have "fold_carry ?s = fold_carry (a + w)"
    by (rule fold_carry_cong) (simp add: fold_carry_zero)
  with one show ?thesis by simp
qed

lemma foldl_oc_add:
  "\<forall>w \<in> set ws. w < 65536 \<Longrightarrow> foldl oc_add (fold_carry a) ws = fold_carry (a + sum_list ws)"
proof (induction ws arbitrary: a)
  case Nil
  show ?case by simp
next
  case (Cons w ws)
  then show ?case by (simp add: oc_add_fold add.assoc)
qed

lemma ones_complement_sum_fold:
  "ones_complement_sum b = fold_carry (sum_list (words16 b))"
proof -
  have "fold_carry 0 = 0" by (simp add: fold_carry_small)
  then show ?thesis
    using foldl_oc_add [of "words16 b" 0] words16_less [of _ b]
    by (simp add: ones_complement_sum_def)
qed

lemma reference_sum_words: "reference_sum b acc = acc + sum_list (words16 b)"
  by (induction b acc rule: reference_sum.induct) simp_all

section \<open>A memory of \<^verbatim>\<open>0xFF\<close> bytes\<close>

lemma sum_words16_ones: "sum_list (words16 (replicate (2 * k) 255)) = k * 65535"
  by (induction k) simp_all

lemma replicate_8: "replicate 8 x = [x, x, x, x, x, x, x, x]"
  by (simp add: eval_nat_numeral)

lemma le_nat_ones8: "le_nat (replicate 8 255) = 18446744073709551615"
  by (simp add: replicate_8)

lemma exact_sum_ones:
  "r < 8 \<Longrightarrow>
   exact_sum (replicate (8 * n + r) 255) = n * 8589934590 + sum_list (words16 (replicate r 255))"
proof (induction n)
  case 0
  then show ?case by (subst exact_sum_rec) simp
next
  case (Suc n)
  have tk: "take 8 (replicate (8 * Suc n + r) (255 :: byte)) = replicate 8 255" by simp
  have dr: "drop 8 (replicate (8 * Suc n + r) (255 :: byte)) = replicate (8 * n + r) 255" by simp
  have "exact_sum (replicate (8 * Suc n + r) 255) =
        18446744073709551615 mod 4294967296 + 18446744073709551615 div 4294967296
        + exact_sum (replicate (8 * n + r) 255)"
    by (subst exact_sum_rec) (simp only: tk dr le_nat_ones8, simp)
  then show ?case using Suc by simp
qed

lemma fold_carry_multiple: "0 < k \<Longrightarrow> fold_carry (k * 65535) = 65535"
proof -
  assume "0 < k"
  then obtain j where k: "k = Suc j" by (cases k) auto
  have "k * 65535 - 1 = 65535 * j + 65534" using k by simp
  then have "(k * 65535 - 1) mod 65535 = 65534" by (simp only: mod_mult_self4) simp
  then show ?thesis using k by (simp add: fold_carry_closed)
qed

lemma fold_loop_numeral: "fold_loop (numeral n) = word_of_nat (fold_carry (unat (numeral n :: u64)))"
proof -
  have "word_of_nat (unat (fold_loop (numeral n))) = (word_of_nat (fold_carry (unat (numeral n :: u64))) :: u64)"
    by (simp only: unat_fold_loop)
  then show ?thesis by simp
qed

lemma digest_ones_big: "digest_32_le ones_heap 0 17179869192 = Some 1"
proof -
  have "exact_sum (replicate (8 * 2147483649 + 0) 255) = 2147483649 * 8589934590 + sum_list (words16 (replicate 0 255))"
    by (rule exact_sum_ones) simp
  then have e: "exact_sum (replicate 17179869192 255) = 18446744078004518910" by simp
  have "digest_32_le ones_heap 0 (length (replicate 17179869192 (255 :: byte))) =
        Some (ucast (NOT (fold_loop (word_of_nat (exact_sum (replicate 17179869192 255))))))"
    by (rule digest_buffer) (rule buffer_at_ones)
  moreover have "(18446744078004518910 :: u64) = 4294967294" by simp
  ultimately have "digest_32_le ones_heap 0 17179869192 = Some (ucast (NOT (fold_loop 4294967294)))"
    by (simp add: e)
  moreover have "fold_loop 4294967294 = 65534"
    by (simp add: fold_loop_numeral fold_carry_closed)
  ultimately show ?thesis by (simp add: ucast_not)
qed

lemma le_word16:
  "(word_of_nat (unat (a :: byte) + 256 * unat (b :: byte)) :: u16) = push_bit 8 (ucast b) OR ucast a"
proof -
  have "(ucast a :: u16) AND push_bit 8 (ucast b) = 0"
    by (rule bit_word_eqI) (auto simp: bit_simps dest: bit_imp_le_length)
  then have plus: "(ucast a :: u16) + push_bit 8 (ucast b) = ucast a OR push_bit 8 (ucast b)"
    by (rule disjunctive_add_eq_or)
  have "(word_of_nat (unat a + 256 * unat b) :: u16) = ucast a + push_bit 8 (ucast b)"
    by (simp add: push_bit_eq_mult)
  also have "\<dots> = ucast a OR push_bit 8 (ucast b)" by (rule plus)
  also have "\<dots> = push_bit 8 (ucast b) OR ucast a" by (rule or.commute)
  finally show ?thesis .
qed

lemma ones_complement_sum_ones_big: "ones_complement_sum (replicate 17179869192 255) = 65535"
proof -
  have "sum_list (words16 (replicate (2 * 8589934596) 255)) = 8589934596 * 65535"
    by (rule sum_words16_ones)
  then have "fold_carry (sum_list (words16 (replicate 17179869192 255))) = fold_carry (8589934596 * 65535)"
    by simp
  moreover have "fold_carry (8589934596 * 65535) = 65535" by (rule fold_carry_multiple) simp
  ultimately show ?thesis by (simp only: ones_complement_sum_fold)
qed

lemma le_nat_scenario5: "le_nat [0, 1, 2, 3, 4, 5, 6, 7] = 506097522914230528"
  by simp

lemma scenario5_trace:
  "buffer_at m p [0, 1, 2, 3, 4, 5, 6, 7] \<Longrightarrow>
   load64 m p = Some 0x0706050403020100 \<and>
   chunk_loop m p 8 0 0 = Some (p + 8, 0, 0x03020100, 0x07060504) \<and>
   accumulate m p 8 = Some 0x0A080604 \<and>
   fold_step 0x0A080604 = 0x100C \<and>
   fold_loop 0x0A080604 = 0x100C \<and>
   digest_32_le m p 8 = Some 0xEFF3"
proof -
  assume buf: "buffer_at m p [0, 1, 2, 3, 4, 5, 6, 7]"
  have ld: "load64 m p = Some 0x0706050403020100"
    using load64_buffer [OF buf] by (simp add: le_nat_scenario5)
  have lo: "(0x0706050403020100 :: u64) AND 0xffffffff = 0x03020100"
    using low32_of_nat [of 506097522914230528] by simp
  have hi: "drop_bit 32 (0x0706050403020100 :: u64) = 0x07060504"
    using high32_of_nat [of 506097522914230528] by simp
  have ck: "chunk_loop m p 8 0 0 = Some (p + 8, 0, 0x03020100, 0x07060504)"
    by (subst chunk_loop.simps) (simp add: ld lo hi chunk_loop.simps)
  have ac: "accumulate m p 8 = Some 0x0A080604"
    by (simp add: accumulate_def ck word_loop.simps last_byte_def)
  have l16: "(0x0A080604 :: u64) AND 0xffff = 0x0604"
    by (rule word_unat_eq_iff [THEN iffD2]) (simp add: unat_low16)
  have h16: "drop_bit 16 (0x0A080604 :: u64) = 0x0A08"
    by (rule word_unat_eq_iff [THEN iffD2]) (simp add: unat_high16)
  have fs: "fold_step 0x0A080604 = 0x100C" by (simp add: fold_step_def l16 h16)
  have "drop_bit 16 (0x100C :: u64) = 0"
    by (rule word_unat_eq_iff [THEN iffD2]) (simp add: unat_high16)
  then have fl: "fold_loop 0x0A080604 = 0x100C"
    by (subst fold_loop.simps) (simp add: h16 fs fold_loop.simps)
  have "digest_32_le m p 8 = Some 0xEFF3"
    by (simp add: digest_32_le_def ac fl ucast_not)
  with ld ck ac fs fl show ?thesis by (simp only: simp_thms)
qed

section \<open>Sums of the two parts of a buffer\<close>

lemma div8_add_le: "a div 8 + b div 8 \<le> (a + b) div (8 :: nat)"
proof -
  have "(a + b) div 8 = a div 8 + b div 8 + (a mod 8 + b mod 8) div 8" by (rule div_add1_eq)
  then show ?thesis by linarith
qed

lemma accumulate_split:
  assumes "buffer_at m p b" and "k \<le> length b"
  shows "accumulate m p k = Some (word_of_nat (exact_sum (take k b)))"
    and "accumulate m (p + k) (length b - k) = Some (word_of_nat (exact_sum (drop k b)))"
proof -
  have "buffer_at m p (take k b)" using assms(1) by (rule buffer_at_take)
  then have "accumulate m p (length (take k b)) = Some (word_of_nat (exact_sum (take k b)))"
    by (rule accumulate_buffer)
  then show "accumulate m p k = Some (word_of_nat (exact_sum (take k b)))"
    using assms(2) by (simp add: min_absorb2)
  have "buffer_at m (p + k) (drop k b)" using assms(1) by (rule buffer_at_drop)
  then have "accumulate m (p + k) (length (drop k b)) = Some (word_of_nat (exact_sum (drop k b)))"
    by (rule accumulate_buffer)
  then show "accumulate m (p + k) (length b - k) = Some (word_of_nat (exact_sum (drop k b)))"
    by simp
qed

lemma split_sum_fits:
  assumes "k \<le> length b" and "length b div 8 \<le> 2147483648"
  shows "exact_sum (take k b) + exact_sum (drop k b) < 18446744073709551616"
proof -
  let ?a = "length (take k b) div 8" and ?c = "length (drop k b) div 8"
  have "?a + ?c \<le> (length (take k b) + length (drop k b)) div 8" by (rule div8_add_le)
  also have "\<dots> = length b div 8" using assms(1) by simp
  finally have "?a + ?c \<le> 2147483648" using assms(2) by simp
  then have "(?a + ?c) * 8589934590 \<le> 2147483648 * 8589934590" by (rule mult_le_mono1)
  then have "?a * 8589934590 + ?c * 8589934590 \<le> 18446744069414584320"
    by (simp add: add_mult_distrib)
  then show ?thesis using exact_sum_le [of "take k b"] exact_sum_le [of "drop k b"] by linarith
qed

lemma split_fold:
  assumes "even k" and "k \<le> length b"
  shows "fold_carry (exact_sum (take k b) + exact_sum (drop k b)) = fold_carry (sum_list (words16 b))"
proof (rule fold_carry_cong)
  let ?w1 = "sum_list (words16 (take k b))" and ?w2 = "sum_list (words16 (drop k b))"
  have "even (length (take k b))" using assms by (simp add: min_absorb2)
  then have "words16 (take k b @ drop k b) = words16 (take k b) @ words16 (drop k b)"
    by (rule words16_append)
  then have w: "sum_list (words16 b) = ?w1 + ?w2" by simp
  have "(exact_sum (take k b) + exact_sum (drop k b)) mod 65535 =
        (exact_sum (take k b) mod 65535 + exact_sum (drop k b) mod 65535) mod 65535"
    by (simp only: mod_add_eq)
  also have "\<dots> = (?w1 mod 65535 + ?w2 mod 65535) mod 65535" by (simp only: exact_sum_mod)
  also have "\<dots> = (?w1 + ?w2) mod 65535" by (simp only: mod_add_eq)
  finally show "(exact_sum (take k b) + exact_sum (drop k b)) mod 65535 = sum_list (words16 b) mod 65535"
    by (simp only: w)
  show "(exact_sum (take k b) + exact_sum (drop k b) = 0) = (sum_list (words16 b) = 0)"
    by (simp only: w add_is_0 exact_sum_zero)
qed

lemma accumulate_ones: "accumulate ones_heap p n = Some (word_of_nat (exact_sum (replicate n 255)))"
  using accumulate_buffer [OF buffer_at_ones, of p n] by simp

section \<open>Checked additions\<close>

lemma add_checked_of_nat:
  assumes "unat s + n < 18446744073709551616"
  shows "add_checked s (word_of_nat n) = Inr (s + word_of_nat n)"
    and "unat (s + word_of_nat n) = unat s + n"
proof -
  have n: "unat (word_of_nat n :: u64) = n" using assms by (intro unat_of_nat64) simp
  show "add_checked s (word_of_nat n) = Inr (s + word_of_nat n)"
    using assms by (simp add: add_checked_def n)
  show "unat (s + word_of_nat n) = unat s + n"
    using assms by (simp add: unat_word_ariths n)
qed

lemma chunk_loop_checked_buffer:
  "buffer_at m p b \<Longrightarrow>
   unat s + lane_lo b < 18446744073709551616 \<Longrightarrow>
   unat s1 + lane_hi b < 18446744073709551616 \<Longrightarrow>
   chunk_loop_checked m p (length b) s s1 =
     Inr (p + 8 * (length b div 8), length b mod 8,
          s + word_of_nat (lane_lo b), s1 + word_of_nat (lane_hi b))"
proof (induction b arbitrary: p s s1 rule: lane_lo.induct)
  case (1 b)
  show ?case
  proof (cases "8 \<le> length b")
    case False
    then show ?thesis by (simp add: chunk_loop_checked.simps lane_lo.simps lane_hi.simps)
  next
    case True
    let ?x = "le_nat (take 8 b)"
    let ?lo = "?x mod 4294967296" and ?hi = "?x div 4294967296"
    have x: "?x < 18446744073709551616" using True by (intro le_nat_8_less) simp
    have ld: "load64 m p = Some (word_of_nat ?x)" using "1.prems"(1) True by (rule load64_buffer)
    have rest: "buffer_at m (p + 8) (drop 8 b)" using "1.prems"(1) by (rule buffer_at_drop)
    have lo: "lane_lo b = ?lo + lane_lo (drop 8 b)" using True by (subst lane_lo.simps) simp
    have hi: "lane_hi b = ?hi + lane_hi (drop 8 b)" using True by (subst lane_hi.simps) simp
    have fit_lo: "unat s + ?lo < 18446744073709551616" using "1.prems"(2) lo by linarith
    have fit_hi: "unat s1 + ?hi < 18446744073709551616" using "1.prems"(3) hi by linarith
    have next_lo: "unat (s + word_of_nat ?lo) + lane_lo (drop 8 b) < 18446744073709551616"
      using "1.prems"(2) lo unfolding add_checked_of_nat(2) [OF fit_lo] by linarith
    have next_hi: "unat (s1 + word_of_nat ?hi) + lane_hi (drop 8 b) < 18446744073709551616"
      using "1.prems"(3) hi unfolding add_checked_of_nat(2) [OF fit_hi] by linarith
    have dm: "length b div 8 = Suc (length (drop 8 b) div 8)" "length b mod 8 = length (drop 8 b) mod 8"
      using True by (simp_all add: le_div_geq le_mod_geq)
    have "chunk_loop_checked m p (length b) s s1 =
          chunk_loop_checked m (p + 8) (length (drop 8 b)) (s + word_of_nat ?lo) (s1 + word_of_nat ?hi)"
      using True
      by (subst chunk_loop_checked.simps)
         (simp add: ld low32_of_nat [OF x] high32_of_nat [OF x]
            add_checked_of_nat(1) [OF fit_lo] add_checked_of_nat(1) [OF fit_hi])
    also have "\<dots> = Inr (p + 8 + 8 * (length (drop 8 b) div 8), length (drop 8 b) mod 8,
           s + word_of_nat ?lo + word_of_nat (lane_lo (drop 8 b)),
           s1 + word_of_nat ?hi + word_of_nat (lane_hi (drop 8 b)))"
      using "1.IH" [OF True rest next_lo next_hi] .
    also have "\<dots> = Inr (p + 8 * (length b div 8), length b mod 8,
           s + word_of_nat (lane_lo b), s1 + word_of_nat (lane_hi b))"
      using dm by (simp add: lo hi add.assoc)
    finally show ?thesis .
  qed
qed

lemma tail_checked_buffer:
  "buffer_at m p b \<Longrightarrow> unat s + sum_list (words16 b) < 18446744073709551616 \<Longrightarrow>
   (case word_loop_checked m p (length b) s of
      Inl e \<Rightarrow> Inl e
    | Inr (u16, len2, s2) \<Rightarrow> last_byte_checked m u16 len2 s2) = Inr (s + word_of_nat (sum_list (words16 b)))"
proof (induction b arbitrary: p s rule: words16.induct)
  case 1
  show ?case by (simp add: word_loop_checked.simps last_byte_checked_def)
next
  case (2 x)
  have fit: "unat s + unat x < 18446744073709551616" using "2.prems"(2) by simp
  have "m p = Some x" using "2.prems"(1) by simp
  then show ?case
    using add_checked_of_nat(1) [OF fit]
    by (simp add: word_loop_checked.simps last_byte_checked_def load8_def)
next
  case (3 x y r)
  let ?w = "unat x + 256 * unat y"
  have ld: "load16 m p = Some (word_of_nat ?w)" using "3.prems"(1) by (rule load16_buffer)
  have rest: "buffer_at m (p + 2) r" using "3.prems"(1) by simp
  have fit: "unat s + ?w < 18446744073709551616" using "3.prems"(2) by simp
  have nxt: "unat (s + word_of_nat ?w) + sum_list (words16 r) < 18446744073709551616"
    using "3.prems"(2) unfolding add_checked_of_nat(2) [OF fit] by simp
  have "word_loop_checked m p (length (x # y # r)) s =
        (case add_checked s (ucast (word_of_nat ?w :: u16)) of
           Inl e \<Rightarrow> Inl e
         | Inr s' \<Rightarrow> word_loop_checked m (p + 2) (length r) s')"
    by (subst word_loop_checked.simps) (simp only: ld, simp cong: sum.case_cong)
  also have "\<dots> = word_loop_checked m (p + 2) (length r) (s + word_of_nat ?w)"
    by (simp only: ucast16_of_nat [OF word16_less] add_checked_of_nat(1) [OF fit] sum.case)
  finally show ?case using "3.IH" [OF rest nxt] by (simp add: add.assoc)
qed

lemma lane_lo_le: "lane_lo b \<le> (length b div 8) * 4294967295"
proof (induction b rule: lane_lo.induct)
  case (1 b)
  show ?case
  proof (cases "8 \<le> length b")
    case False
    then show ?thesis by (simp add: lane_lo.simps)
  next
    case True
    have "le_nat (take 8 b) mod 4294967296 \<le> 4294967295"
      using mod_less_divisor [of 4294967296 "le_nat (take 8 b)"] by linarith
    moreover have "length b div 8 = Suc (length (drop 8 b) div 8)" using True by (simp add: le_div_geq)
    moreover have "lane_lo b = le_nat (take 8 b) mod 4294967296 + lane_lo (drop 8 b)"
      using True by (subst lane_lo.simps) simp
    ultimately show ?thesis using "1.IH" [OF True] by simp
  qed
qed

lemma lane_hi_le: "lane_hi b \<le> (length b div 8) * 4294967295"
proof (induction b rule: lane_hi.induct)
  case (1 b)
  show ?case
  proof (cases "8 \<le> length b")
    case False
    then show ?thesis by (simp add: lane_hi.simps)
  next
    case True
    have "le_nat (take 8 b) < 18446744073709551616" using True by (intro le_nat_8_less) simp
    then have "le_nat (take 8 b) div 4294967296 \<le> 4294967295" by simp
    moreover have "length b div 8 = Suc (length (drop 8 b) div 8)" using True by (simp add: le_div_geq)
    moreover have "lane_hi b = le_nat (take 8 b) div 4294967296 + lane_hi (drop 8 b)"
      using True by (subst lane_hi.simps) simp
    ultimately show ?thesis using "1.IH" [OF True] by simp
  qed
qed

lemma lanes_fit:
  assumes "length b div 8 \<le> 4294967296"
  shows "lane_lo b < 18446744073709551616" and "lane_hi b < 18446744073709551616"
proof -
  have "(length b div 8) * 4294967295 \<le> 4294967296 * 4294967295" using assms by (rule mult_le_mono1)
  then have "(length b div 8) * 4294967295 < 18446744073709551616" by simp
  then show "lane_lo b < 18446744073709551616" and "lane_hi b < 18446744073709551616"
    using lane_lo_le [of b] lane_hi_le [of b] by linarith+
qed

lemma lanes_checked:
  assumes "buffer_at m p b" and "length b div 8 \<le> 4294967296"
  shows "chunk_loop_checked m p (length b) 0 0 =
           Inr (p + 8 * (length b div 8), length b mod 8, word_of_nat (lane_lo b), word_of_nat (lane_hi b))"
  using chunk_loop_checked_buffer [OF assms(1), of 0 0] lanes_fit [OF assms(2)] by simp

lemma accumulate_checked_buffer:
  assumes "buffer_at m p b" and "length b div 8 \<le> 2147483648"
  shows "accumulate_checked m p (length b) = Inr (word_of_nat (exact_sum b))"
proof -
  let ?k = "8 * (length b div 8)"
  let ?t = "sum_list (words16 (drop ?k b))"
  have e: "lane_lo b + lane_hi b + ?t < 18446744073709551616"
    using exact_sum_fits [OF assms(2)] by (simp add: exact_sum_def)
  have ck: "chunk_loop_checked m p (length b) 0 0 =
           Inr (p + ?k, length b mod 8, word_of_nat (lane_lo b), word_of_nat (lane_hi b))"
    using assms by (intro lanes_checked) simp_all
  have lo: "unat (word_of_nat (lane_lo b) :: u64) = lane_lo b" using e by (intro unat_of_nat64) simp
  have fit: "unat (word_of_nat (lane_lo b) :: u64) + lane_hi b < 18446744073709551616"
    using e unfolding lo by simp
  have comb: "add_checked (word_of_nat (lane_lo b)) (word_of_nat (lane_hi b)) =
              Inr (word_of_nat (lane_lo b) + word_of_nat (lane_hi b))"
    using fit by (rule add_checked_of_nat(1))
  have uc: "unat (word_of_nat (lane_lo b) + word_of_nat (lane_hi b) :: u64) = lane_lo b + lane_hi b"
    using add_checked_of_nat(2) [OF fit] by (simp only: lo)
  have rest: "buffer_at m (p + ?k) (drop ?k b)" using assms(1) by (rule buffer_at_drop)
  have len: "length (drop ?k b) = length b mod 8" by (simp add: minus_mult_div_eq_mod)
  have fit2: "unat (word_of_nat (lane_lo b) + word_of_nat (lane_hi b) :: u64) + ?t < 18446744073709551616"
    using e unfolding uc by simp
  have "(case word_loop_checked m (p + ?k) (length b mod 8) (word_of_nat (lane_lo b) + word_of_nat (lane_hi b)) of
           Inl e \<Rightarrow> Inl e
         | Inr (u16, len2, s2) \<Rightarrow> last_byte_checked m u16 len2 s2) =
        Inr (word_of_nat (lane_lo b) + word_of_nat (lane_hi b) + word_of_nat ?t)"
    using tail_checked_buffer [OF rest fit2] by (simp only: len)
  then show ?thesis
    by (simp add: accumulate_checked_def ck comb exact_sum_def)
qed

lemma lanes_ones:
  "r < 8 \<Longrightarrow> lane_lo (replicate (8 * n + r) 255) = n * 4294967295 \<and>
           lane_hi (replicate (8 * n + r) 255) = n * 4294967295"
proof (induction n)
  case 0
  then show ?case by (simp add: lane_lo.simps lane_hi.simps)
next
  case (Suc n)
  have tk: "take 8 (replicate (8 * Suc n + r) (255 :: byte)) = replicate 8 255" by simp
  have dr: "drop 8 (replicate (8 * Suc n + r) (255 :: byte)) = replicate (8 * n + r) 255" by simp
  have len: "8 \<le> length (replicate (8 * Suc n + r) (255 :: byte))" by simp
  have "lane_lo (replicate (8 * Suc n + r) 255) =
        18446744073709551615 mod 4294967296 + lane_lo (replicate (8 * n + r) 255)"
    by (subst lane_lo.simps) (simp only: len if_True tk dr le_nat_ones8)
  moreover have "lane_hi (replicate (8 * Suc n + r) 255) =
        18446744073709551615 div 4294967296 + lane_hi (replicate (8 * n + r) 255)"
    by (subst lane_hi.simps) (simp only: len if_True tk dr le_nat_ones8)
  ultimately show ?case using Suc by simp
qed

lemma fold_step_checked: "add_checked (s AND 0xffff) (drop_bit 16 s) = Inr (fold_step s)"
proof -
  have "unat s < 2 ^ 64" using unsigned_less [of s] by simp
  then have "unat s div 65536 < 281474976710656" by simp
  moreover have "unat s mod 65536 < 65536" by simp
  ultimately have "unat s mod 65536 + unat s div 65536 < 2 ^ 64" by simp
  then show ?thesis by (simp add: add_checked_def fold_step_def unat_low16 unat_high16)
qed

section \<open>Properties of the routine\<close>

text \<open>
  C4: whatever the memory holds and whatever the pointer is (a null pointer, an
  unreadable address), a call with \<^verbatim>\<open>len == 0\<close> reads nothing and returns
  \<^verbatim>\<open>0xFFFF\<close>: both loops and the last-byte test are skipped, the accumulator is still
  0, the fold leaves it alone and the complement of zero is returned.
\<close>

theorem digest_empty: "digest_32_le m p 0 = Some 0xFFFF"
proof -
  have "accumulate m p 0 = Some 0"
    by (simp add: accumulate_def chunk_loop.simps word_loop.simps last_byte_def)
  moreover have "fold_loop 0 = 0" by (simp add: fold_loop.simps)
  moreover have "(ucast (NOT (0 :: u64)) :: u16) = 0xFFFF" unfolding ucast_not by simp
  ultimately show ?thesis by (simp add: digest_32_le_def)
qed

text \<open>
  C7: a two-byte buffer \<open>[a, b]\<close> is read as the little-endian word \<open>(b << 8) | a\<close>,
  with \<open>a\<close> the least significant byte, and the routine returns its 16-bit
  complement.
\<close>

theorem digest_two_bytes:
  "buffer_at m p [a, b] \<Longrightarrow> digest_32_le m p 2 = Some (NOT (push_bit 8 (ucast b) OR ucast a))"
proof -
  assume buf: "buffer_at m p [a, b]"
  have fc: "fold_carry (unat a + 256 * unat b) = unat a + 256 * unat b"
    using word16_less [of a b] by (rule fold_carry_small)
  have len: "length [a, b] = 2" by simp
  have sm: "sum_list (words16 [a, b]) = unat a + 256 * unat b" by simp
  have "digest_32_le m p (length [a, b]) =
        Some (NOT (word_of_nat (fold_carry (sum_list (words16 [a, b])))))"
    using buf by (intro digest_value) simp_all
  then have "digest_32_le m p 2 = Some (NOT (word_of_nat (unat a + 256 * unat b)))"
    by (simp only: len sm fc)
  then show ?thesis by (simp only: le_word16)
qed

text \<open>The specification's fourth scenario, \<^verbatim>\<open>01 02\<close>, gives \<^verbatim>\<open>0xFDFE\<close>.\<close>

theorem digest_two_bytes_witness:
  "buffer_at (only_buffer 0 [1, 2]) 0 [1, 2] \<and> digest_32_le (only_buffer 0 [1, 2]) 0 2 = Some 0xFDFE"
proof -
  have a: "buffer_at (only_buffer 0 [1, 2]) 0 [1, 2]" by (rule buffer_at_only_buffer)
  show ?thesis using a digest_two_bytes [OF a] by simp
qed

text \<open>
  C2, as amended: for the eight bytes \<^verbatim>\<open>00 01 02 03 04 05 06 07\<close> the loaded word is
  \<^verbatim>\<open>0x0706050403020100\<close>, the lanes are \<^verbatim>\<open>0x03020100\<close> and \<^verbatim>\<open>0x07060504\<close>, their
  sum is \<^verbatim>\<open>0x0A080604\<close>, one fold step gives \<^verbatim>\<open>0x0604 + 0x0A08 = 0x100C\<close>, where
  the fold stops, and the routine returns \<^verbatim>\<open>~0x100C = 0xEFF3\<close>.
\<close>

theorem digest_scenario_eight_bytes:
  "buffer_at m p [0, 1, 2, 3, 4, 5, 6, 7] \<Longrightarrow>
   load64 m p = Some 0x0706050403020100 \<and>
   chunk_loop m p 8 0 0 = Some (p + 8, 0, 0x03020100, 0x07060504) \<and>
   accumulate m p 8 = Some 0x0A080604 \<and>
   fold_step 0x0A080604 = 0x100C \<and>
   fold_loop 0x0A080604 = 0x100C \<and>
   digest_32_le m p 8 = Some 0xEFF3"
  by (rule scenario5_trace)

text \<open>The scenario on a memory that holds just these eight bytes.\<close>

theorem digest_scenario_eight_bytes_witness:
  "buffer_at (only_buffer 0 [0, 1, 2, 3, 4, 5, 6, 7]) 0 [0, 1, 2, 3, 4, 5, 6, 7] \<and>
   chunk_loop (only_buffer 0 [0, 1, 2, 3, 4, 5, 6, 7]) 0 8 0 0 = Some (8, 0, 0x03020100, 0x07060504) \<and>
   digest_32_le (only_buffer 0 [0, 1, 2, 3, 4, 5, 6, 7]) 0 8 = Some 0xEFF3"
proof -
  have a: "buffer_at (only_buffer 0 [0, 1, 2, 3, 4, 5, 6, 7]) 0 [0, 1, 2, 3, 4, 5, 6, 7]"
    by (rule buffer_at_only_buffer)
  show ?thesis using a digest_scenario_eight_bytes [OF a] by simp
qed

text \<open>The value the specification derives, \<^verbatim>\<open>0xFFF2\<close> through a fold step \<^verbatim>\<open>0x1000C\<close>, is not what the routine computes.\<close>

theorem digest_scenario_eight_bytes_counterexample:
  "digest_32_le (only_buffer 0 [0, 1, 2, 3, 4, 5, 6, 7]) 0 8 = Some 0xEFF3 \<and>
   digest_32_le (only_buffer 0 [0, 1, 2, 3, 4, 5, 6, 7]) 0 8 \<noteq> Some 0xFFF2 \<and>
   fold_step 0x0A080604 = 0x100C \<and>
   fold_step 0x0A080604 \<noteq> 0x1000C"
proof -
  have a: "buffer_at (only_buffer 0 [0, 1, 2, 3, 4, 5, 6, 7]) 0 [0, 1, 2, 3, 4, 5, 6, 7]"
    by (rule buffer_at_only_buffer)
  show ?thesis using scenario5_trace [OF a] by simp
qed

text \<open>
  C9: the result depends only on the \<^verbatim>\<open>len\<close> bytes behind the pointer. Two runs on
  memories that hold the same \<^verbatim>\<open>len\<close> bytes behind their pointers return the same
  value, whatever lies at or past offset \<^verbatim>\<open>len\<close>, even when nothing there is
  readable; so no load of the routine touches a byte past offset \<^verbatim>\<open>len - 1\<close>.
\<close>

theorem digest_depends_only_on_buffer:
  "buffer_at m1 p1 b \<Longrightarrow> buffer_at m2 p2 b \<Longrightarrow>
   digest_32_le m1 p1 (length b) = digest_32_le m2 p2 (length b) \<and>
   digest_32_le m1 p1 (length b) \<noteq> None"
  by (simp add: digest_buffer)

text \<open>Three bytes alone in memory at address 0, and the same three bytes at address 5 followed by two others.\<close>

theorem digest_depends_only_on_buffer_witness:
  "buffer_at (only_buffer 0 [1, 2, 3]) 0 [1, 2, 3] \<and>
   buffer_at (only_buffer 5 [1, 2, 3, 9, 9]) 5 [1, 2, 3] \<and>
   digest_32_le (only_buffer 0 [1, 2, 3]) 0 (length [1, 2, 3 :: byte]) =
     digest_32_le (only_buffer 5 [1, 2, 3, 9, 9]) 5 (length [1, 2, 3 :: byte]) \<and>
   digest_32_le (only_buffer 0 [1, 2, 3]) 0 (length [1, 2, 3 :: byte]) \<noteq> None"
proof -
  have a: "buffer_at (only_buffer 0 [1, 2, 3]) 0 [1, 2, 3]" by (rule buffer_at_only_buffer)
  have b: "buffer_at (only_buffer 5 [1, 2, 3, 9, 9]) 5 [1, 2, 3]"
    using buffer_at_take [OF buffer_at_only_buffer, of 5 "[1, 2, 3, 9, 9]" 3] by simp
  show ?thesis using a b digest_depends_only_on_buffer [OF a b] by blast
qed

text \<open>
  C10: the fold loop terminates for every 64-bit value of the accumulator. While the
  loop condition \<^verbatim>\<open>sum >> 16\<close> holds, an iteration makes the accumulator strictly
  smaller; the loop leaves after some number \<open>n\<close> of iterations, every earlier
  iteration having found the condition true, and on exit the accumulator is below
  \<open>2 ^ 16\<close>.
\<close>

theorem fold_loop_terminates:
  "(drop_bit 16 s \<noteq> 0 \<longrightarrow> unat (fold_step s) < unat s) \<and>
   (\<exists>n. fold_loop s = (fold_step ^^ n) s \<and>
        (\<forall>k<n. drop_bit 16 ((fold_step ^^ k) s) \<noteq> 0) \<and>
        drop_bit 16 ((fold_step ^^ n) s) = 0) \<and>
   unat (fold_loop s) < 2 ^ 16"
proof (intro conjI impI)
  have iff: "(drop_bit 16 t \<noteq> 0) = (65536 \<le> unat t)" for t :: u64
  proof -
    have "(drop_bit 16 t = 0) = (unat (drop_bit 16 t) = 0)" by (simp add: unat_eq_0)
    also have "\<dots> = (unat t < 65536)" by (simp add: unat_high16 div_eq_0_iff)
    finally show ?thesis by auto
  qed
  {
    assume "drop_bit 16 s \<noteq> 0"
    then have big: "65536 \<le> unat s" by (simp only: iff)
    then have a: "unat s div 65536 < 65536 * (unat s div 65536)" by (simp add: div_greater_zero_iff)
    have b: "unat s = 65536 * (unat s div 65536) + unat s mod 65536" by simp
    have "unat s mod 65536 + unat s div 65536 < unat s" using a b by linarith
    then show "unat (fold_step s) < unat s" by (simp only: unat_fold_step)
  }
  show "\<exists>n. fold_loop s = (fold_step ^^ n) s \<and>
        (\<forall>k<n. drop_bit 16 ((fold_step ^^ k) s) \<noteq> 0) \<and>
        drop_bit 16 ((fold_step ^^ n) s) = 0"
  proof (induction s rule: fold_loop.induct)
    case (1 s)
    show ?case
    proof (cases "drop_bit 16 s \<noteq> 0")
      case False
      then have "fold_loop s = (fold_step ^^ 0) s" by (subst fold_loop.simps) simp
      then show ?thesis using False by (intro exI [of _ 0]) simp
    next
      case True
      from "1.IH" [OF True] obtain n where
        n: "fold_loop (fold_step s) = (fold_step ^^ n) (fold_step s)"
           "\<forall>k<n. drop_bit 16 ((fold_step ^^ k) (fold_step s)) \<noteq> 0"
           "drop_bit 16 ((fold_step ^^ n) (fold_step s)) = 0" by blast
      have "fold_loop s = (fold_step ^^ Suc n) s"
        using True n(1) by (subst fold_loop.simps) (simp add: funpow_swap1)
      moreover have "\<forall>k<Suc n. drop_bit 16 ((fold_step ^^ k) s) \<noteq> 0"
      proof (intro allI impI)
        fix k assume "k < Suc n"
        then show "drop_bit 16 ((fold_step ^^ k) s) \<noteq> 0"
          using True n(2) by (cases k) (simp_all add: funpow_swap1)
      qed
      moreover have "drop_bit 16 ((fold_step ^^ Suc n) s) = 0"
        using n(3) by (simp add: funpow_swap1)
      ultimately show ?thesis by blast
    qed
  qed
  show "unat (fold_loop s) < 2 ^ 16"
    using fold_carry_less [of "unat s"] by (simp add: unat_fold_loop)
qed

text \<open>The value \<^verbatim>\<open>0x1FFFE\<close>, for which the loop condition holds.\<close>

theorem fold_loop_terminates_witness:
  "drop_bit 16 (0x1FFFE :: u64) \<noteq> 0 \<and> unat (fold_step 0x1FFFE) < unat (0x1FFFE :: u64) \<and>
   unat (fold_loop 0x1FFFE) < 2 ^ 16"
proof -
  have "unat (drop_bit 16 (0x1FFFE :: u64)) = 1" by (simp add: unat_high16)
  then have a: "drop_bit 16 (0x1FFFE :: u64) \<noteq> 0" by auto
  show ?thesis using a fold_loop_terminates [of "0x1FFFE"] by blast
qed

text \<open>
  C1, as amended: for every buffer \<open>b\<close> of at most \<open>2 ^ 31\<close> full 8-byte chunks, the
  routine returns the 16-bit complement of \<open>S\<close>, the one's-complement sum (addition
  with end-around carry) of the little-endian 16-bit words of \<open>b\<close>, a final single
  byte counting as a word with a zero high byte. Beyond that length the 64-bit
  accumulator can wrap around, and the identity fails.
\<close>

theorem digest_complement_identity:
  "buffer_at m p b \<Longrightarrow> length b div 8 \<le> 2147483648 \<Longrightarrow>
   digest_32_le m p (length b) = Some (NOT (word_of_nat (ones_complement_sum b)))"
  by (simp add: digest_value ones_complement_sum_fold)

text \<open>The three bytes \<^verbatim>\<open>FF FF FF\<close> of the specification's sixth scenario give \<^verbatim>\<open>0xFF00\<close>.\<close>

theorem digest_complement_identity_witness:
  "buffer_at (only_buffer 0 [255, 255, 255]) 0 [255, 255, 255] \<and>
   length [255, 255, 255 :: byte] div 8 \<le> 2147483648 \<and>
   digest_32_le (only_buffer 0 [255, 255, 255]) 0 (length [255, 255, 255 :: byte]) = Some 0xFF00"
proof -
  have a: "buffer_at (only_buffer 0 [255, 255, 255]) 0 [255, 255, 255]"
    by (rule buffer_at_only_buffer)
  have b: "length [255, 255, 255 :: byte] div 8 \<le> 2147483648" by simp
  have "ones_complement_sum [255, 255, 255] = 255"
    by (simp add: ones_complement_sum_def oc_add_def)
  then show ?thesis using a digest_complement_identity [OF a b] by simp
qed

text \<open>With \<open>2 ^ 31 + 1\<close> chunks of \<^verbatim>\<open>0xFF\<close> bytes the combined lanes exceed \<open>2 ^ 64\<close>: the routine returns 1, the complement of the one's-complement sum is 0.\<close>

theorem digest_complement_identity_counterexample:
  "buffer_at ones_heap 0 (replicate 17179869192 255) \<and>
   length (replicate 17179869192 (255 :: byte)) = 17179869192 \<and>
   digest_32_le ones_heap 0 17179869192 = Some 1 \<and>
   NOT (word_of_nat (ones_complement_sum (replicate 17179869192 255))) = (0 :: u16)"
  by (simp add: buffer_at_ones digest_ones_big ones_complement_sum_ones_big)

text \<open>
  C3, as amended: for every buffer of at most \<open>2 ^ 31\<close> full 8-byte chunks (so for every
  8-byte buffer), the two-lane accumulation over 64-bit loads gives the same checksum
  as the byte-wise reference implementation, which adds the little-endian 16-bit
  words one after the other, folds and complements.
\<close>

theorem digest_refines_reference:
  "buffer_at m p b \<Longrightarrow> length b div 8 \<le> 2147483648 \<Longrightarrow>
   digest_32_le m p (length b) = Some (reference_digest b)"
  by (simp add: digest_value reference_digest_def reference_sum_words)

text \<open>The eight bytes of the fifth scenario: routine and reference both give \<^verbatim>\<open>0xEFF3\<close>.\<close>

theorem digest_refines_reference_witness:
  "buffer_at (only_buffer 0 [0, 1, 2, 3, 4, 5, 6, 7]) 0 [0, 1, 2, 3, 4, 5, 6, 7] \<and>
   length [0, 1, 2, 3, 4, 5, 6, 7 :: byte] div 8 \<le> 2147483648 \<and>
   digest_32_le (only_buffer 0 [0, 1, 2, 3, 4, 5, 6, 7]) 0 (length [0, 1, 2, 3, 4, 5, 6, 7 :: byte]) =
     Some (reference_digest [0, 1, 2, 3, 4, 5, 6, 7]) \<and>
   reference_digest [0, 1, 2, 3, 4, 5, 6, 7] = 0xEFF3"
proof -
  have a: "buffer_at (only_buffer 0 [0, 1, 2, 3, 4, 5, 6, 7]) 0 [0, 1, 2, 3, 4, 5, 6, 7]"
    by (rule buffer_at_only_buffer)
  have b: "length [0, 1, 2, 3, 4, 5, 6, 7 :: byte] div 8 \<le> 2147483648" by simp
  have "reference_digest [0, 1, 2, 3, 4, 5, 6, 7] = 0xEFF3"
    by (simp add: reference_digest_def fold_carry_small)
  then show ?thesis using a b digest_refines_reference [OF a b] by simp
qed

text \<open>With \<open>2 ^ 31 + 1\<close> chunks of \<^verbatim>\<open>0xFF\<close> bytes the routine returns 1 and the reference 0.\<close>

theorem digest_refines_reference_counterexample:
  "buffer_at ones_heap 0 (replicate 17179869192 255) \<and>
   digest_32_le ones_heap 0 (length (replicate 17179869192 (255 :: byte))) = Some 1 \<and>
   reference_digest (replicate 17179869192 255) = 0"
proof -
  have "reference_sum (replicate 17179869192 255) 0 = sum_list (words16 (replicate (2 * 8589934596) 255))"
    by (simp add: reference_sum_words)
  also have "\<dots> = 8589934596 * 65535" by (rule sum_words16_ones)
  finally have "fold_carry (reference_sum (replicate 17179869192 255) 0) = fold_carry (8589934596 * 65535)"
    by (simp only:)
  moreover have "fold_carry (8589934596 * 65535) = 65535" by (rule fold_carry_multiple) simp
  ultimately have "fold_carry (reference_sum (replicate 17179869192 255) 0) = 65535" by (simp only:)
  then show ?thesis by (simp add: buffer_at_ones digest_ones_big reference_digest_def)
qed

text \<open>
  C6, as amended: for every even \<open>n\<close> with \<open>2 \<le> n\<close> and at most \<open>2 ^ 31\<close> full 8-byte
  chunks, the checksum of \<open>n\<close> bytes \<^verbatim>\<open>0xFF\<close> is \<^verbatim>\<open>0x0000\<close>.
\<close>

theorem digest_all_ones:
  "even n \<Longrightarrow> 2 \<le> n \<Longrightarrow> n div 8 \<le> 2147483648 \<Longrightarrow> buffer_at m p (replicate n 255) \<Longrightarrow>
   digest_32_le m p n = Some 0"
proof -
  assume ev: "even n" and n: "2 \<le> n" and bound: "n div 8 \<le> 2147483648"
    and buf: "buffer_at m p (replicate n 255)"
  from ev obtain k where k: "n = 2 * k" by (auto elim: evenE)
  with n have pos: "0 < k" by simp
  have "fold_carry (sum_list (words16 (replicate n 255))) = 65535"
    using k pos by (simp add: sum_words16_ones fold_carry_multiple)
  moreover have "digest_32_le m p (length (replicate n (255 :: byte))) =
      Some (NOT (word_of_nat (fold_carry (sum_list (words16 (replicate n 255))))))"
    using buf bound by (intro digest_value) simp_all
  ultimately show ?thesis by simp
qed

text \<open>Four bytes \<^verbatim>\<open>0xFF\<close>.\<close>

theorem digest_all_ones_witness:
  "even (4 :: nat) \<and> (2 :: nat) \<le> 4 \<and> (4 :: nat) div 8 \<le> 2147483648 \<and>
   buffer_at ones_heap 0 (replicate 4 255) \<and> digest_32_le ones_heap 0 4 = Some 0"
proof -
  have a: "buffer_at ones_heap 0 (replicate 4 255)" by (rule buffer_at_ones)
  show ?thesis using a digest_all_ones [of 4 ones_heap 0] by simp
qed

text \<open>For \<open>n = 2 ^ 34 + 8\<close> the routine returns 1.\<close>

theorem digest_all_ones_counterexample:
  "even (17179869192 :: nat) \<and> (2 :: nat) \<le> 17179869192 \<and>
   buffer_at ones_heap 0 (replicate 17179869192 255) \<and>
   digest_32_le ones_heap 0 17179869192 = Some 1 \<and>
   digest_32_le ones_heap 0 17179869192 \<noteq> Some 0"
  by (simp add: buffer_at_ones digest_ones_big)

text \<open>
  C5, as amended: for every buffer of at most \<open>2 ^ 31\<close> full 8-byte chunks, split into a
  prefix of even length \<open>k\<close> and the remaining suffix, adding the pre-fold sums of the
  two parts and then folding and complementing gives the checksum of the whole buffer.
\<close>

theorem digest_split_agrees:
  "buffer_at m p b \<Longrightarrow> even k \<Longrightarrow> k \<le> length b \<Longrightarrow> length b div 8 \<le> 2147483648 \<Longrightarrow>
   digest_split m p k (length b) = digest_32_le m p (length b) \<and>
   digest_32_le m p (length b) \<noteq> None"
proof -
  assume buf: "buffer_at m p b" and ev: "even k" and k: "k \<le> length b"
    and bound: "length b div 8 \<le> 2147483648"
  let ?e = "exact_sum (take k b) + exact_sum (drop k b)"
  have "fold_loop (word_of_nat ?e) = word_of_nat (fold_carry ?e)"
    using split_sum_fits [OF k bound] by (rule fold_loop_of_nat)
  then have "fold_loop (word_of_nat (exact_sum (take k b)) + word_of_nat (exact_sum (drop k b)))
             = word_of_nat (fold_carry (sum_list (words16 b)))"
    by (simp add: split_fold [OF ev k])
  then have "digest_split m p k (length b) =
             Some (NOT (word_of_nat (fold_carry (sum_list (words16 b)))))"
    by (simp only: digest_split_def accumulate_split [OF buf k] option.case ucast_not ucast_of_nat_64_16)
  then show ?thesis by (simp add: digest_value [OF buf bound])
qed

text \<open>Eleven bytes split after the second.\<close>

theorem digest_split_agrees_witness:
  "buffer_at (only_buffer 0 [1, 2, 3, 4, 5, 6, 7, 8, 9, 10, 11]) 0 [1, 2, 3, 4, 5, 6, 7, 8, 9, 10, 11] \<and>
   even (2 :: nat) \<and> 2 \<le> length [1, 2, 3, 4, 5, 6, 7, 8, 9, 10, 11 :: byte] \<and>
   length [1, 2, 3, 4, 5, 6, 7, 8, 9, 10, 11 :: byte] div 8 \<le> 2147483648 \<and>
   digest_split (only_buffer 0 [1, 2, 3, 4, 5, 6, 7, 8, 9, 10, 11]) 0 2 (length [1, 2, 3, 4, 5, 6, 7, 8, 9, 10, 11 :: byte]) =
     digest_32_le (only_buffer 0 [1, 2, 3, 4, 5, 6, 7, 8, 9, 10, 11]) 0 (length [1, 2, 3, 4, 5, 6, 7, 8, 9, 10, 11 :: byte])"
proof -
  have a: "buffer_at (only_buffer 0 [1, 2, 3, 4, 5, 6, 7, 8, 9, 10, 11]) 0 [1, 2, 3, 4, 5, 6, 7, 8, 9, 10, 11]"
    by (rule buffer_at_only_buffer)
  have b: "even (2 :: nat)" by simp
  have c: "2 \<le> length [1, 2, 3, 4, 5, 6, 7, 8, 9, 10, 11 :: byte]" by simp
  have d: "length [1, 2, 3, 4, 5, 6, 7, 8, 9, 10, 11 :: byte] div 8 \<le> 2147483648" by simp
  show ?thesis using a b c d digest_split_agrees [OF a b c d] by blast
qed

text \<open>A buffer of \<open>2 ^ 34 + 8\<close> bytes \<^verbatim>\<open>0xFF\<close> split after \<open>2 ^ 34 + 2\<close> bytes: neither part overflows and their sums give 0, the whole buffer overflows and gives 1.\<close>

theorem digest_split_agrees_counterexample:
  "buffer_at ones_heap 0 (replicate 17179869192 255) \<and>
   even (17179869186 :: nat) \<and> (17179869186 :: nat) \<le> 17179869192 \<and>
   digest_split ones_heap 0 17179869186 17179869192 = Some 0 \<and>
   digest_32_le ones_heap 0 17179869192 = Some 1"
proof -
  have "exact_sum (replicate (8 * 2147483648 + 2) 255) =
        2147483648 * 8589934590 + sum_list (words16 (replicate 2 255))"
    by (rule exact_sum_ones) simp
  moreover have "sum_list (words16 (replicate 2 255)) = 65535"
    using sum_words16_ones [of 1] by simp
  ultimately have e1: "exact_sum (replicate 17179869186 255) = 18446744069414649855" by simp
  have "exact_sum (replicate (8 * 0 + 6) 255) = 0 * 8589934590 + sum_list (words16 (replicate 6 255))"
    by (rule exact_sum_ones) simp
  moreover have "sum_list (words16 (replicate 6 255)) = 196605"
    using sum_words16_ones [of 3] by simp
  ultimately have e2: "exact_sum (replicate 6 255) = 196605" by simp
  have "fold_loop 18446744069414846460 = 65535"
    by (simp add: fold_loop_numeral fold_carry_closed)
  then have "digest_split ones_heap 0 17179869186 17179869192 = Some 0"
    by (simp add: digest_split_def accumulate_ones e1 e2 ucast_not)
  then show ?thesis by (simp add: buffer_at_ones digest_ones_big)
qed

text \<open>
  C8, as amended: with 64-bit accumulators, no addition inside the chunk loop
  overflows for inputs of up to \<open>2 ^ 32\<close> 8-byte chunks (each lane stays below
  \<open>2 ^ 64\<close>), and no addition of the whole accumulation, the combining
  \<^verbatim>\<open>sum += sum1\<close> and the tail additions included, overflows for inputs of up to
  \<open>2 ^ 31\<close> chunks; the checked run then ends with the value the routine computes.
  The addition of a fold step never overflows.
\<close>

theorem accumulation_no_overflow:
  "buffer_at m p b \<Longrightarrow>
   (length b div 8 \<le> 2 ^ 32 \<longrightarrow>
      (\<exists>r. chunk_loop_checked m p (length b) 0 0 = Inr r \<and> chunk_loop m p (length b) 0 0 = Some r)) \<and>
   (length b div 8 \<le> 2 ^ 31 \<longrightarrow>
      (\<exists>v. accumulate_checked m p (length b) = Inr v \<and> accumulate m p (length b) = Some v)) \<and>
   add_checked (s AND 0xffff) (drop_bit 16 s) = Inr (fold_step s)"
proof (intro conjI impI)
  assume buf: "buffer_at m p b"
  show "add_checked (s AND 0xffff) (drop_bit 16 s) = Inr (fold_step s)" by (rule fold_step_checked)
  {
    assume "length b div 8 \<le> 2 ^ 32"
    then have "length b div 8 \<le> 4294967296" by simp
    then show "\<exists>r. chunk_loop_checked m p (length b) 0 0 = Inr r \<and> chunk_loop m p (length b) 0 0 = Some r"
      using lanes_checked [OF buf] chunk_loop_buffer [OF buf, of 0 0] by simp
  }
  {
    assume "length b div 8 \<le> 2 ^ 31"
    then have "length b div 8 \<le> 2147483648" by simp
    then show "\<exists>v. accumulate_checked m p (length b) = Inr v \<and> accumulate m p (length b) = Some v"
      using accumulate_checked_buffer [OF buf] accumulate_buffer [OF buf] by simp
  }
qed

text \<open>Nineteen bytes \<^verbatim>\<open>0xFF\<close>: two chunks, one 16-bit word and a last byte.\<close>

theorem accumulation_no_overflow_witness:
  "buffer_at ones_heap 0 (replicate 19 255) \<and>
   length (replicate 19 (255 :: byte)) div 8 \<le> 2 ^ 32 \<and>
   (\<exists>r. chunk_loop_checked ones_heap 0 (length (replicate 19 (255 :: byte))) 0 0 = Inr r \<and>
        chunk_loop ones_heap 0 (length (replicate 19 (255 :: byte))) 0 0 = Some r) \<and>
   length (replicate 19 (255 :: byte)) div 8 \<le> 2 ^ 31 \<and>
   (\<exists>v. accumulate_checked ones_heap 0 (length (replicate 19 (255 :: byte))) = Inr v \<and>
        accumulate ones_heap 0 (length (replicate 19 (255 :: byte))) = Some v) \<and>
   add_checked (0x1FFFE AND 0xffff) (drop_bit 16 0x1FFFE) = Inr (fold_step 0x1FFFE)"
proof -
  have a: "buffer_at ones_heap 0 (replicate 19 255)" by (rule buffer_at_ones)
  have b: "length (replicate 19 (255 :: byte)) div 8 \<le> 2 ^ 32" by simp
  have c: "length (replicate 19 (255 :: byte)) div 8 \<le> 2 ^ 31" by simp
  show ?thesis using a b c accumulation_no_overflow [OF a, where s = "0x1FFFE"] by blast
qed

text \<open>With \<open>2 ^ 31 + 1\<close> chunks of \<^verbatim>\<open>0xFF\<close> bytes, fewer than \<open>2 ^ 32\<close>, the chunk loop runs without overflow and the combining addition \<^verbatim>\<open>sum += sum1\<close> overflows.\<close>

theorem accumulation_no_overflow_counterexample:
  "buffer_at ones_heap 0 (replicate 17179869192 255) \<and>
   length (replicate 17179869192 (255 :: byte)) div 8 \<le> 2 ^ 32 \<and>
   chunk_loop_checked ones_heap 0 17179869192 0 0 =
     Inr (17179869192, 0, 9223372039002259455, 9223372039002259455) \<and>
   add_checked 9223372039002259455 9223372039002259455 = Inl Overflow \<and>
   accumulate_checked ones_heap 0 17179869192 = Inl Overflow"
proof -
  have "lane_lo (replicate (8 * 2147483649 + 0) 255) = 2147483649 * 4294967295 \<and>
        lane_hi (replicate (8 * 2147483649 + 0) 255) = 2147483649 * 4294967295"
    by (rule lanes_ones) simp
  then have l: "lane_lo (replicate 17179869192 255) = 9223372039002259455"
    "lane_hi (replicate 17179869192 255) = 9223372039002259455" by simp_all
  have "chunk_loop_checked ones_heap 0 (length (replicate 17179869192 (255 :: byte))) 0 0 =
        Inr (0 + 8 * (length (replicate 17179869192 (255 :: byte)) div 8),
             length (replicate 17179869192 (255 :: byte)) mod 8,
             word_of_nat (lane_lo (replicate 17179869192 255)),
             word_of_nat (lane_hi (replicate 17179869192 255)))"
    by (rule lanes_checked) (simp_all add: buffer_at_ones)
  then have ck: "chunk_loop_checked ones_heap 0 17179869192 0 0 =
     Inr (17179869192, 0, 9223372039002259455, 9223372039002259455)"
    by (simp add: l)
  have ov: "add_checked 9223372039002259455 9223372039002259455 = Inl Overflow"
    by (simp add: add_checked_def)
  have "accumulate_checked ones_heap 0 17179869192 = Inl Overflow"
    by (simp add: accumulate_checked_def ck ov)
  with ck ov show ?thesis by (simp add: buffer_at_ones)
qed

end
